theory Spec2Isabelle
  imports Main "HOL-Library.Multiset"
begin

section \<open>Python values\<close>

text \<open>
  The keyword options of the managers are a Python dict from keyword to an arbitrary
  object. Only the shape of the value matters here: \<open>replace is not True\<close> compares by
  identity with the singleton \<open>True\<close>, so an integer or a string is never \<open>True\<close>,
  whatever its truth value.
\<close>

datatype pyval = PyNone | PyBool bool | PyInt int | PyStr string

type_synonym options = "string \<rightharpoonup> pyval"

text \<open>\<open>options.get(key, default)\<close>.\<close>

definition options_get :: "options \<Rightarrow> string \<Rightarrow> pyval \<Rightarrow> pyval" where
  "options_get options k dflt = (case options k of None \<Rightarrow> dflt | Some v \<Rightarrow> v)"

text \<open>\<open>v is True\<close>: identity with the singleton.\<close>

definition is_True :: "pyval \<Rightarrow> bool" where
  "is_True v = (v = PyBool True)"

text \<open>Python's truth value of an object, \<open>bool(v)\<close>.\<close>

fun truthy :: "pyval \<Rightarrow> bool" where
  "truthy PyNone = False"
| "truthy (PyBool b) = b"
| "truthy (PyInt i) = (i \<noteq> 0)"
| "truthy (PyStr s) = (s \<noteq> [])"

section \<open>Strings: \<open>str.strip()\<close>\<close>

text \<open>
  \<open>str.strip()\<close> without argument removes leading and trailing whitespace. Over the
  one-byte characters of \<open>string\<close> the whitespace of Python's \<open>str\<close> is: tab to
  carriage return (9 to 13), the separators 28 to 31, space (32), next line (133) and
  the no-break space (160).
\<close>

definition is_space :: "char \<Rightarrow> bool" where
  "is_space c = (let n = (of_char c :: nat) in
     (9 \<le> n \<and> n \<le> 13) \<or> (28 \<le> n \<and> n \<le> 32) \<or> n = 133 \<or> n = 160)"

definition strip :: "string \<Rightarrow> string" where
  "strip s = rev (dropWhile is_space (rev (dropWhile is_space s)))"

section \<open>The hashing manager (security/hashing/manager.py)\<close>

text \<open>
  An object handed to \<open>register_hashing_handler\<close>. \<open>is_hashing_base\<close> is the outcome of
  \<open>isinstance(instance, HashingBase)\<close>, \<open>get_name\<close> is what \<open>instance.get_name()\<close>
  returns (\<open>None\<close> or a \<open>str\<close>), and \<open>ident\<close> tells two objects of the same name apart.
\<close>

record 'h instance_obj =
  is_hashing_base :: bool
  get_name :: "string option"
  ident :: 'h

datatype 'h error =
    InvalidHashingHandlerTypeError "'h instance_obj"
  | InvalidHashingHandlerNameError "'h instance_obj"
  | DuplicatedHashingHandlerError string "'h instance_obj"
  | HashingHandlerNotFoundError string
  | AttributeError
  | KeyError string

text \<open>
  The state a call works on: the manager's \<open>_hashing_handlers\<close> dict, and the
  warnings handed to \<open>print_warning\<close> so far, each as (old instance, new instance).
\<close>

record 'h manager =
  hashing_handlers :: "string \<rightharpoonup> 'h instance_obj"
  warnings :: "('h instance_obj \<times> 'h instance_obj) list"

definition init_manager :: "'h manager" where
  "init_manager = \<lparr>hashing_handlers = Map.empty, warnings = []\<rparr>"

text \<open>
  A call returns the exception it raised (\<open>Inl\<close>) or its value, together with the
  state the call leaves behind, so that what an exception leaves of the state is part
  of the model.
\<close>

type_synonym ('h, 'a) outcome = "('h error + 'a) \<times> 'h manager"

text \<open>
  \<open>register_hashing_handler(self, instance, **options)\<close>, lines 47 to 75, in the
  order of the source: the type check, the name check, the duplicate check with the
  \<open>replace\<close> option read only when the name is present, the warning, the assignment.
  \<open>instance.get_name().strip()\<close> on a name that is \<open>None\<close> is never reached: the
  \<open>is None\<close> test comes first in the \<open>or\<close>.
\<close>

definition register_hashing_handler ::
  "'h manager \<Rightarrow> 'h instance_obj \<Rightarrow> options \<Rightarrow> ('h, unit) outcome" where
  "register_hashing_handler self inst options =
    (if \<not> is_hashing_base inst then (Inl (InvalidHashingHandlerTypeError inst), self)
     else case get_name inst of
       None \<Rightarrow> (Inl (InvalidHashingHandlerNameError inst), self)
     | Some name \<Rightarrow>
        if length (strip name) = 0 then (Inl (InvalidHashingHandlerNameError inst), self)
        else if name \<in> dom (hashing_handlers self) then
          (let replace = options_get options ''replace'' (PyBool False) in
           if \<not> is_True replace then (Inl (DuplicatedHashingHandlerError name inst), self)
           else case hashing_handlers self name of
             None \<Rightarrow> (Inl (KeyError name), self)
           | Some old_instance \<Rightarrow>
               (Inr (), self\<lparr>warnings := warnings self @ [(old_instance, inst)],
                             hashing_handlers := (hashing_handlers self)(name \<mapsto> inst)\<rparr>))
        else (Inr (), self\<lparr>hashing_handlers := (hashing_handlers self)(name \<mapsto> inst)\<rparr>))"

text \<open>\<open>_get_hashing_handler(self, name)\<close>, lines 136 to 140.\<close>

definition get_hashing_handler :: "'h manager \<Rightarrow> string \<Rightarrow> ('h, 'h instance_obj) outcome" where
  "get_hashing_handler self name =
    (if name \<notin> dom (hashing_handlers self) then (Inl (HashingHandlerNotFoundError name), self)
     else case hashing_handlers self name of
       None \<Rightarrow> (Inl (KeyError name), self)
     | Some h \<Rightarrow> (Inr h, self))"

text \<open>
  The states a manager can be in: the one \<open>__init__\<close> builds, and every state a
  registration leaves behind, whether it returned or raised.
\<close>

inductive reachable :: "'h manager \<Rightarrow> bool" where
  reachable_init: "reachable init_manager"
| reachable_register:
    "reachable s \<Longrightarrow> register_hashing_handler s inst options = (r, s') \<Longrightarrow> reachable s'"

text \<open>A name that passes the name check of the registration.\<close>

definition valid_name :: "string option \<Rightarrow> bool" where
  "valid_name n = (case n of None \<Rightarrow> False | Some s \<Rightarrow> length (strip s) \<noteq> 0)"

text \<open>Whitespace-only, the empty string included.\<close>

definition whitespace_only :: "string \<Rightarrow> bool" where
  "whitespace_only s = list_all is_space s"

text \<open>
  Every key of a reachable registry is a name that passed the name check, and it is
  the name of the instance stored under it.
\<close>

definition registry_inv :: "'h manager \<Rightarrow> bool" where
  "registry_inv s = (\<forall>n h. hashing_handlers s n = Some h \<longrightarrow>
      is_hashing_base h \<and> get_name h = Some n \<and> valid_name (Some n))"

subsection \<open>Example handlers and states\<close>

definition bcrypt0 :: "nat instance_obj" where
  "bcrypt0 = \<lparr>is_hashing_base = True, get_name = Some ''bcrypt'', ident = 0\<rparr>"

definition bcrypt1 :: "nat instance_obj" where
  "bcrypt1 = \<lparr>is_hashing_base = True, get_name = Some ''bcrypt'', ident = 1\<rparr>"

text \<open>An object that is no hashing handler, whose \<open>get_name\<close> would return blanks.\<close>

definition stranger :: "nat instance_obj" where
  "stranger = \<lparr>is_hashing_base = False, get_name = Some ''  '', ident = 2\<rparr>"

definition blank_handler :: "nat instance_obj" where
  "blank_handler = \<lparr>is_hashing_base = True, get_name = Some [CHR '' '', CHR 0x09], ident = 3\<rparr>"

definition nameless_handler :: "nat instance_obj" where
  "nameless_handler = \<lparr>is_hashing_base = True, get_name = None, ident = 4\<rparr>"

definition pbkdf2 :: "nat instance_obj" where
  "pbkdf2 = \<lparr>is_hashing_base = True, get_name = Some ''pbkdf2'', ident = 5\<rparr>"

text \<open>The manager after \<open>bcrypt0\<close> has been registered in a new one.\<close>

definition one_handler :: "nat manager" where
  "one_handler = \<lparr>hashing_handlers = [''bcrypt'' \<mapsto> bcrypt0], warnings = []\<rparr>"

section \<open>The dependency-ordered loader\<close>

text \<open>
  The packaging manager that orders and loads the packages is not among the sources:
  of the loader the sources hold the \<open>Package\<close> base class (packaging/context.py) with
  its \<open>NAME\<close> and \<open>DEPENDS\<close> attributes, and packages that subclass it. This section
  follows section 4.3 of the specification.
\<close>

text \<open>A unit: the \<open>NAME\<close> and the \<open>DEPENDS\<close> list of a \<open>Package\<close> subclass.\<close>

record pkg_unit =
  unit_name :: string
  depends :: "string list"

datatype loader_error = CyclicDependencyError "string list" | UnitLoadError string

text \<open>
  Modelled from the spec: the names of the two reserved units, which the loader places
  first (the specification's example loads \<open>core\<close>, \<open>bootstrap\<close>, then the declared
  units; the comment on \<open>Package.DEPENDS\<close> says the same of \<open>pyrin.application\<close> and
  \<open>pyrin.packaging\<close>).
\<close>

definition reserved_units :: "string list" where
  "reserved_units = [''core'', ''bootstrap'']"

text \<open>A unit is ready when each of its \<open>depends\<close> is placed in the output order.\<close>

definition ready :: "string list \<Rightarrow> pkg_unit \<Rightarrow> bool" where
  "ready placed u = list_all (\<lambda>d. d \<in> set placed) (depends u)"

text \<open>
  Modelled from the spec: the ordering loop of the loader, "repeated selection of units
  whose depends are all already placed in the output order", the selected unit being
  the first ready one in declaration order; "a cycle when no ready unit exists but
  unplaced units remain", the error naming the units that remain. \<open>pending\<close> holds the
  unplaced units in declaration order.
\<close>

function order_units :: "string list \<Rightarrow> pkg_unit list \<Rightarrow> loader_error + string list" where
  "order_units placed pending =
     (if pending = [] then Inr placed
      else case find (ready placed) pending of
        None \<Rightarrow> Inl (CyclicDependencyError (map unit_name pending))
      | Some u \<Rightarrow> order_units (placed @ [unit_name u]) (remove1 u pending))"
  by pat_completeness auto
termination
proof (relation "measure (\<lambda>(placed, pending). length pending)")
  show "wf (measure (\<lambda>(placed, pending). length pending))" by simp
next
  fix placed :: "string list" and pending :: "pkg_unit list" and u
  assume "pending \<noteq> []" and "find (ready placed) pending = Some u"
  then have "u \<in> set pending"
    by (auto simp: find_Some_iff)
  then have "length (remove1 u pending) < length pending"
    using length_pos_if_in_set [of u pending] by (simp add: length_remove1)
  then show "((placed @ [unit_name u], remove1 u pending), (placed, pending))
      \<in> measure (\<lambda>(placed, pending). length pending)"
    by simp
qed

text \<open>Modelled from the spec: the order of loading, the two reserved units first.\<close>

definition compute_order :: "pkg_unit list \<Rightarrow> loader_error + string list" where
  "compute_order units = order_units reserved_units units"

text \<open>
  Modelled from the spec: the two callbacks of the hosting application, \<open>load\<close> and
  \<open>notify_loaded\<close>. A callback is given by whether it returns (\<open>True\<close>) or raises for a
  unit; the calls made are recorded in order. A callback that raises aborts the loading.
\<close>

datatype event = Load string | NotifyLoaded string

fun load_units ::
  "(string \<Rightarrow> bool) \<Rightarrow> (string \<Rightarrow> bool) \<Rightarrow> string list \<Rightarrow> event list \<times> loader_error option" where
  "load_units load notify_loaded [] = ([], None)"
| "load_units load notify_loaded (n # ns) =
     (if \<not> load n then ([Load n], Some (UnitLoadError n))
      else if \<not> notify_loaded n then ([Load n, NotifyLoaded n], Some (UnitLoadError n))
      else case load_units load notify_loaded ns of
             (evs, r) \<Rightarrow> (Load n # NotifyLoaded n # evs, r))"

text \<open>
  Modelled from the spec: the loader. The order is computed first; "after ordering",
  the callbacks are invoked for each unit in order. It returns the calls it made and
  the error, or the order it loaded.
\<close>

definition load_packages ::
  "(string \<Rightarrow> bool) \<Rightarrow> (string \<Rightarrow> bool) \<Rightarrow> pkg_unit list
     \<Rightarrow> event list \<times> (loader_error + string list)" where
  "load_packages load notify_loaded units =
     (case compute_order units of
        Inl e \<Rightarrow> ([], Inl e)
      | Inr order \<Rightarrow>
          (case load_units load notify_loaded order of
             (evs, None) \<Rightarrow> (evs, Inr order)
           | (evs, Some e) \<Rightarrow> (evs, Inl e)))"

text \<open>
  The dependency graph of the declared units: an edge from the name of a unit to each
  name in its \<open>depends\<close>.
\<close>

definition dep_rel :: "pkg_unit list \<Rightarrow> (string \<times> string) set" where
  "dep_rel units = (\<Union>u \<in> set units. (\<lambda>d. (unit_name u, d)) ` set (depends u))"

text \<open>
  A well-formed input: the names tell the units apart, no declared unit takes the name
  of a reserved one, and every dependency names a declared or a reserved unit.
\<close>

definition distinct_units :: "pkg_unit list \<Rightarrow> bool" where
  "distinct_units units =
     (distinct (map unit_name units) \<and> set (map unit_name units) \<inter> set reserved_units = {})"

definition closed_units :: "pkg_unit list \<Rightarrow> bool" where
  "closed_units units =
     list_all (\<lambda>u. list_all (\<lambda>d. d \<in> set reserved_units \<or> d \<in> set (map unit_name units))
                      (depends u)) units"

text \<open>
  Step \<open>k\<close> of a run that placed the units \<open>ps\<close> in this order: the first unit, in
  declaration order, among the declared units not placed in the first \<open>k\<close> steps, that
  is ready once these are placed.
\<close>

definition chosen_at ::
  "string list \<Rightarrow> pkg_unit list \<Rightarrow> pkg_unit list \<Rightarrow> nat \<Rightarrow> pkg_unit option" where
  "chosen_at placed pending ps k =
     find (ready (placed @ map unit_name (take k ps)))
          (filter (\<lambda>u. u \<notin> set (take k ps)) pending)"

text \<open>A name lies on a cycle of the dependency graph.\<close>

definition on_cycle :: "pkg_unit list \<Rightarrow> string \<Rightarrow> bool" where
  "on_cycle units n = ((n, n) \<in> (dep_rel units)\<^sup>+)"

text \<open>
  The names that can be resolved at all: the reserved ones, and each declared unit
  whose dependencies can all be resolved. The other declared units are the unresolved
  subset.
\<close>

inductive resolvable :: "pkg_unit list \<Rightarrow> string \<Rightarrow> bool" for units where
  resolvable_reserved: "n \<in> set reserved_units \<Longrightarrow> resolvable units n"
| resolvable_unit:
    "u \<in> set units \<Longrightarrow> \<forall>d \<in> set (depends u). resolvable units d
       \<Longrightarrow> resolvable units (unit_name u)"

definition unresolved :: "pkg_unit list \<Rightarrow> string list" where
  "unresolved units = map unit_name (filter (\<lambda>u. \<not> resolvable units (unit_name u)) units)"

subsection \<open>Example units\<close>

definition db_unit :: pkg_unit where
  "db_unit = \<lparr>unit_name = ''db'', depends = []\<rparr>"

definition api_unit :: pkg_unit where
  "api_unit = \<lparr>unit_name = ''api'', depends = [''db'']\<rparr>"

definition unit_a :: pkg_unit where
  "unit_a = \<lparr>unit_name = ''a'', depends = [''b'']\<rparr>"

definition unit_b :: pkg_unit where
  "unit_b = \<lparr>unit_name = ''b'', depends = [''a'']\<rparr>"

section \<open>Facts about \<open>strip\<close> and the reachable states\<close>

lemma strip_Nil_iff: "strip s = [] \<longleftrightarrow> whitespace_only s"
proof
  assume "strip s = []"
  then have a: "\<forall>x \<in> set (dropWhile is_space s). is_space x"
    by (simp add: strip_def)
  show "whitespace_only s"
  proof (cases "dropWhile is_space s")
    case Nil
    then show ?thesis
      by (simp add: whitespace_only_def list_all_iff)
  next
    case (Cons c cs)
    then have "\<not> is_space c"
      by (metis hd_dropWhile list.sel(1) list.distinct(1))
    with a Cons show ?thesis by simp
  qed
next
  assume "whitespace_only s"
  then show "strip s = []"
    by (auto simp: strip_def whitespace_only_def list_all_iff dest: set_dropWhileD)
qed

lemma strip_empty_iff: "length (strip s) = 0 \<longleftrightarrow> whitespace_only s"
  by (simp add: strip_Nil_iff)

lemma valid_name_iff:
  "valid_name n \<longleftrightarrow> (\<exists>s. n = Some s \<and> \<not> whitespace_only s)"
  by (cases n) (simp_all add: valid_name_def strip_Nil_iff)

lemma registry_inv_init: "registry_inv init_manager"
  by (simp add: registry_inv_def init_manager_def)

lemma registry_inv_register:
  assumes "registry_inv s" and "register_hashing_handler s inst options = (r, s')"
  shows "registry_inv s'"
  using assms
  by (auto simp: register_hashing_handler_def registry_inv_def valid_name_def Let_def
           split: if_splits option.splits)

lemma reachable_inv: "reachable s \<Longrightarrow> registry_inv s"
  by (induction rule: reachable.induct) (auto intro: registry_inv_init registry_inv_register)

lemma reachable_key_valid:
  assumes "reachable s" and "hashing_handlers s n = Some old"
  shows "strip n \<noteq> []"
  using reachable_inv [OF assms(1)] assms(2)
  by (auto simp: registry_inv_def valid_name_def)

lemma register_present:
  assumes "is_hashing_base h" and "get_name h = Some n" and "strip n \<noteq> []"
      and "hashing_handlers s n = Some old"
  shows "register_hashing_handler s h options =
    (if options ''replace'' = Some (PyBool True)
     then (Inr (), s\<lparr>warnings := warnings s @ [(old, h)],
                      hashing_handlers := (hashing_handlers s)(n \<mapsto> h)\<rparr>)
     else (Inl (DuplicatedHashingHandlerError n h), s))"
  using assms
  by (auto simp: register_hashing_handler_def options_get_def is_True_def Let_def
           split: option.splits)

lemma strip_bcrypt: "strip ''bcrypt'' = ''bcrypt''"
  by (simp add: strip_def is_space_def)

lemma strip_pbkdf2: "strip ''pbkdf2'' = ''pbkdf2''"
  by (simp add: strip_def is_space_def)

lemma blank_whitespace: "whitespace_only [CHR '' '', CHR 0x09]"
  by (simp add: whitespace_only_def is_space_def)

lemma register_first:
  "register_hashing_handler init_manager bcrypt0 Map.empty = (Inr (), one_handler)"
  by (simp add: register_hashing_handler_def init_manager_def bcrypt0_def one_handler_def
        strip_bcrypt)

lemma reachable_one_handler: "reachable one_handler"
  using reachable_register [OF reachable_init register_first] .

text \<open>
  Claim C1. In every state the manager can reach, for a handler whose name is already
  registered: without the \<open>replace\<close> option, or with \<open>replace=False\<close>, the
  registration raises \<open>DuplicatedHashingHandlerError\<close> and leaves the state as it was;
  with \<open>replace=True\<close> it returns, and \<open>_get_hashing_handler\<close> of that name then
  returns the new instance.
\<close>

theorem register_duplicate_or_replace:
  assumes "reachable s" and "is_hashing_base h" and "get_name h = Some n"
      and "n \<in> dom (hashing_handlers s)"
  shows "(options ''replace'' = None \<or> options ''replace'' = Some (PyBool False) \<longrightarrow>
            register_hashing_handler s h options = (Inl (DuplicatedHashingHandlerError n h), s)) \<and>
         (options ''replace'' = Some (PyBool True) \<longrightarrow>
            (\<exists>s'. register_hashing_handler s h options = (Inr (), s') \<and>
                  get_hashing_handler s' n = (Inr h, s')))"
proof -
  from assms(4) obtain old where old: "hashing_handlers s n = Some old" by auto
  have v: "strip n \<noteq> []" using reachable_key_valid [OF assms(1) old] .
  note r = register_present [OF assms(2) assms(3) v old, of options]
  show ?thesis
    by (auto simp: r get_hashing_handler_def)
qed

theorem register_duplicate_or_replace_witness:
  "register_hashing_handler one_handler bcrypt1 Map.empty
      = (Inl (DuplicatedHashingHandlerError ''bcrypt'' bcrypt1), one_handler) \<and>
   register_hashing_handler one_handler bcrypt1 [''replace'' \<mapsto> PyBool False]
      = (Inl (DuplicatedHashingHandlerError ''bcrypt'' bcrypt1), one_handler) \<and>
   (\<exists>s'. register_hashing_handler one_handler bcrypt1 [''replace'' \<mapsto> PyBool True] = (Inr (), s') \<and>
         get_hashing_handler s' ''bcrypt'' = (Inr bcrypt1, s'))"
proof -
  have b: "is_hashing_base bcrypt1" "get_name bcrypt1 = Some ''bcrypt''"
    by (simp_all add: bcrypt1_def)
  have d: "''bcrypt'' \<in> dom (hashing_handlers one_handler)"
    by (simp add: one_handler_def)
  note t = register_duplicate_or_replace [OF reachable_one_handler b d]
  from t [of Map.empty] t [of "[''replace'' \<mapsto> PyBool False]"]
       t [of "[''replace'' \<mapsto> PyBool True]"]
  show ?thesis by simp
qed


text \<open>
  Claim C4. For every state of the manager and every name, \<open>_get_hashing_handler\<close>
  raises \<open>HashingHandlerNotFoundError\<close> when the name is not a key of the registry,
  returns the instance stored under the name when it is, and raises exactly when the
  name is absent: there is no default value.
\<close>

theorem get_hashing_handler_found_iff:
  "(n \<notin> dom (hashing_handlers s) \<longrightarrow>
       get_hashing_handler s n = (Inl (HashingHandlerNotFoundError n), s)) \<and>
   (\<forall>h. hashing_handlers s n = Some h \<longrightarrow> get_hashing_handler s n = (Inr h, s)) \<and>
   ((\<exists>e. fst (get_hashing_handler s n) = Inl e) \<longleftrightarrow> n \<notin> dom (hashing_handlers s))"
  by (auto simp: get_hashing_handler_def split: option.splits)

theorem get_hashing_handler_found_iff_witness:
  "get_hashing_handler one_handler ''md5'' = (Inl (HashingHandlerNotFoundError ''md5''), one_handler) \<and>
   get_hashing_handler one_handler ''bcrypt'' = (Inr bcrypt0, one_handler)"
  using get_hashing_handler_found_iff [of "''md5''" one_handler]
        get_hashing_handler_found_iff [of "''bcrypt''" one_handler]
  by (simp add: one_handler_def)

text \<open>
  Claim C8. Whatever the state and the options, registering an object that is not an
  instance of \<open>HashingBase\<close> raises \<open>InvalidHashingHandlerTypeError\<close>, whatever its name
  is (the type check comes first), and registering an instance of \<open>HashingBase\<close> whose
  name is \<open>None\<close>, empty or made of whitespace only raises
  \<open>InvalidHashingHandlerNameError\<close>.
\<close>

theorem register_type_check_then_name_check:
  "(\<not> is_hashing_base inst \<longrightarrow>
      register_hashing_handler s inst options = (Inl (InvalidHashingHandlerTypeError inst), s)) \<and>
   (is_hashing_base inst \<and>
      (get_name inst = None \<or> (\<exists>nm. get_name inst = Some nm \<and> whitespace_only nm)) \<longrightarrow>
      register_hashing_handler s inst options = (Inl (InvalidHashingHandlerNameError inst), s))"
  by (auto simp: register_hashing_handler_def strip_Nil_iff)

theorem register_type_check_then_name_check_witness:
  "register_hashing_handler one_handler stranger Map.empty
      = (Inl (InvalidHashingHandlerTypeError stranger), one_handler) \<and>
   register_hashing_handler one_handler nameless_handler Map.empty
      = (Inl (InvalidHashingHandlerNameError nameless_handler), one_handler) \<and>
   register_hashing_handler one_handler blank_handler Map.empty
      = (Inl (InvalidHashingHandlerNameError blank_handler), one_handler)"
  using register_type_check_then_name_check [of stranger one_handler Map.empty]
        register_type_check_then_name_check [of nameless_handler one_handler Map.empty]
        register_type_check_then_name_check [of blank_handler one_handler Map.empty]
        blank_whitespace
  by (simp add: stranger_def nameless_handler_def blank_handler_def)

text \<open>
  Claim C9. A registration that raises leaves the state as it was, the handler map
  included. One that returns has stored the instance under its name and has left every
  other key of the handler map as it was.
\<close>

theorem register_frame:
  assumes "register_hashing_handler s inst options = (r, s')"
  shows "((\<exists>e. r = Inl e) \<longrightarrow> s' = s) \<and>
         (r = Inr () \<longrightarrow> (\<exists>n. get_name inst = Some n \<and>
              hashing_handlers s' n = Some inst \<and>
              (\<forall>m. m \<noteq> n \<longrightarrow> hashing_handlers s' m = hashing_handlers s m)))"
  using assms
  by (auto simp: register_hashing_handler_def Let_def split: if_splits option.splits)

theorem register_frame_witness:
  "(\<exists>s'. register_hashing_handler one_handler pbkdf2 Map.empty = (Inr (), s') \<and>
      hashing_handlers s' ''pbkdf2'' = Some pbkdf2 \<and>
      hashing_handlers s' ''bcrypt'' = Some bcrypt0) \<and>
   register_hashing_handler one_handler bcrypt1 Map.empty
      = (Inl (DuplicatedHashingHandlerError ''bcrypt'' bcrypt1), one_handler)"
proof -
  have a: "register_hashing_handler one_handler pbkdf2 Map.empty =
     (Inr (), one_handler\<lparr>hashing_handlers := (hashing_handlers one_handler)(''pbkdf2'' \<mapsto> pbkdf2)\<rparr>)"
    by (simp add: register_hashing_handler_def pbkdf2_def one_handler_def strip_pbkdf2)
  have b: "register_hashing_handler one_handler bcrypt1 Map.empty
      = (Inl (DuplicatedHashingHandlerError ''bcrypt'' bcrypt1), one_handler)"
    by (simp add: register_hashing_handler_def bcrypt1_def one_handler_def strip_bcrypt
          options_get_def is_True_def)
  from register_frame [OF a] register_frame [OF b] a b
  show ?thesis by (simp add: pbkdf2_def one_handler_def)
qed

text \<open>
  Claim C10. When the name of the handler is already registered, every value of the
  \<open>replace\<close> option other than the boolean \<open>True\<close> itself, and its absence, raises
  \<open>DuplicatedHashingHandlerError\<close>: the registration returns exactly when the option
  is \<open>True\<close>. The witness takes the truthy values \<open>1\<close> and \<open>'yes'\<close>.
\<close>

theorem replace_needs_identical_True:
  assumes "reachable s" and "is_hashing_base h" and "get_name h = Some n"
      and "n \<in> dom (hashing_handlers s)"
  shows "(options ''replace'' \<noteq> Some (PyBool True) \<longrightarrow>
            register_hashing_handler s h options = (Inl (DuplicatedHashingHandlerError n h), s)) \<and>
         (fst (register_hashing_handler s h options) = Inr () \<longleftrightarrow>
            options ''replace'' = Some (PyBool True))"
proof -
  from assms(4) obtain old where old: "hashing_handlers s n = Some old" by auto
  have v: "strip n \<noteq> []" using reachable_key_valid [OF assms(1) old] .
  note r = register_present [OF assms(2) assms(3) v old, of options]
  show ?thesis by (auto simp: r)
qed

theorem replace_needs_identical_True_witness:
  "truthy (PyInt 1) \<and> truthy (PyStr ''yes'') \<and>
   register_hashing_handler one_handler bcrypt1 [''replace'' \<mapsto> PyInt 1]
      = (Inl (DuplicatedHashingHandlerError ''bcrypt'' bcrypt1), one_handler) \<and>
   register_hashing_handler one_handler bcrypt1 [''replace'' \<mapsto> PyStr ''yes'']
      = (Inl (DuplicatedHashingHandlerError ''bcrypt'' bcrypt1), one_handler) \<and>
   fst (register_hashing_handler one_handler bcrypt1 [''replace'' \<mapsto> PyBool True]) = Inr ()"
proof -
  have b: "is_hashing_base bcrypt1" "get_name bcrypt1 = Some ''bcrypt''"
    by (simp_all add: bcrypt1_def)
  have d: "''bcrypt'' \<in> dom (hashing_handlers one_handler)"
    by (simp add: one_handler_def)
  note t = replace_needs_identical_True [OF reachable_one_handler b d]
  from t [of "[''replace'' \<mapsto> PyInt 1]"] t [of "[''replace'' \<mapsto> PyStr ''yes'']"]
       t [of "[''replace'' \<mapsto> PyBool True]"]
  show ?thesis by simp
qed

section \<open>Facts about the loader\<close>

lemma find_Some_mem: "find P xs = Some x \<Longrightarrow> x \<in> set xs \<and> P x"
  by (auto simp: find_Some_iff)

lemma ready_iff: "ready placed u \<longleftrightarrow> set (depends u) \<subseteq> set placed"
  by (auto simp: ready_def list_all_iff)

lemma dep_rel_iff: "(n, d) \<in> dep_rel units \<longleftrightarrow> (\<exists>u \<in> set units. unit_name u = n \<and> d \<in> set (depends u))"
  by (auto simp: dep_rel_def)

lemma dep_rel_mono: "set us \<subseteq> set vs \<Longrightarrow> dep_rel us \<subseteq> dep_rel vs"
  by (auto simp: dep_rel_def)

lemma finite_dep_rel: "finite (dep_rel units)"
  by (simp add: dep_rel_def)

text \<open>Among the pending units of an acyclic graph one depends on no pending unit.\<close>

lemma acyclic_has_source:
  assumes ac: "acyclic (dep_rel pending)" and ne: "pending \<noteq> []"
  shows "\<exists>u \<in> set pending. \<forall>d \<in> set (depends u). d \<notin> unit_name ` set pending"
proof -
  have "wf ((dep_rel pending)\<inverse>)"
    using ac finite_dep_rel [of pending]
    by (simp add: finite_acyclic_wf_converse)
  moreover from ne have "unit_name (hd pending) \<in> unit_name ` set pending" by simp
  ultimately obtain z where z: "z \<in> unit_name ` set pending"
    and min: "\<And>y. (y, z) \<in> (dep_rel pending)\<inverse> \<Longrightarrow> y \<notin> unit_name ` set pending"
    by (rule wfE_min) blast
  from z obtain u where u: "u \<in> set pending" "unit_name u = z" by auto
  have "\<forall>d \<in> set (depends u). d \<notin> unit_name ` set pending"
  proof
    fix d assume "d \<in> set (depends u)"
    with u have "(z, d) \<in> dep_rel pending" by (auto simp: dep_rel_iff)
    then show "d \<notin> unit_name ` set pending" using min [of d] by simp
  qed
  with u show ?thesis by blast
qed

text \<open>The loop returns an order when the pending units are acyclic and their
  dependencies are placed or pending.\<close>

lemma order_units_returns:
  assumes "acyclic (dep_rel pending)"
      and "\<forall>u \<in> set pending. set (depends u) \<subseteq> set placed \<union> unit_name ` set pending"
  shows "\<exists>order. order_units placed pending = Inr order"
  using assms
proof (induction placed pending rule: order_units.induct)
  case (1 placed pending)
  show ?case
  proof (cases "pending = []")
    case True
    then show ?thesis by simp
  next
    case False
    from acyclic_has_source [OF "1.prems"(1) False]
    obtain u where u: "u \<in> set pending"
      and src: "\<forall>d \<in> set (depends u). d \<notin> unit_name ` set pending" by blast
    with "1.prems"(2) have "ready placed u" by (auto simp: ready_iff)
    with u obtain v where v: "find (ready placed) pending = Some v"
      by (cases "find (ready placed) pending") (auto simp: find_None_iff)
    then have vm: "v \<in> set pending" by (simp add: find_Some_mem)
    have ac': "acyclic (dep_rel (remove1 v pending))"
      using "1.prems"(1) dep_rel_mono [OF set_remove1_subset [of v pending]]
      by (rule acyclic_subset)
    have cl': "\<forall>w \<in> set (remove1 v pending).
        set (depends w) \<subseteq> set (placed @ [unit_name v]) \<union> unit_name ` set (remove1 v pending)"
    proof (intro ballI subsetI)
      fix w d assume w: "w \<in> set (remove1 v pending)" and d: "d \<in> set (depends w)"
      from w have "w \<in> set pending" using set_remove1_subset [of v pending] by blast
      with "1.prems"(2) d have "d \<in> set placed \<or> d \<in> unit_name ` set pending" by auto
      then show "d \<in> set (placed @ [unit_name v]) \<union> unit_name ` set (remove1 v pending)"
      proof
        assume "d \<in> set placed" then show ?thesis by simp
      next
        assume "d \<in> unit_name ` set pending"
        then obtain x where x: "x \<in> set pending" "unit_name x = d" by auto
        show ?thesis
        proof (cases "x = v")
          case True with x show ?thesis by simp
        next
          case False
          with x have "x \<in> set (remove1 v pending)" by (simp add: in_set_remove1)
          with x show ?thesis by auto
        qed
      qed
    qed
    from "1.IH" [OF False v ac' cl'] False v show ?thesis by simp
  qed
qed

lemma remove1_as_filter: "distinct xs \<Longrightarrow> remove1 x xs = filter (\<lambda>y. y \<noteq> x) xs"
  by (simp add: distinct_remove1_removeAll removeAll_filter_not_eq eq_commute)

lemma order_units_shape:
  assumes "order_units placed pending = Inr order" and "distinct pending"
  shows "\<exists>ps. order = placed @ map unit_name ps \<and> mset ps = mset pending \<and>
           (\<forall>k < length ps. chosen_at placed pending ps k = Some (ps ! k))"
  using assms
proof (induction placed pending arbitrary: order rule: order_units.induct)
  case (1 placed pending)
  show ?case
  proof (cases "pending = []")
    case True
    with "1.prems" show ?thesis by simp
  next
    case False
    with "1.prems"(1) obtain u where u: "find (ready placed) pending = Some u"
      by (cases "find (ready placed) pending") auto
    then have um: "u \<in> set pending" by (simp add: find_Some_mem)
    from "1.prems"(1) False u
    have run: "order_units (placed @ [unit_name u]) (remove1 u pending) = Inr order" by simp
    from "1.prems"(2) have d': "distinct (remove1 u pending)" by simp
    from "1.IH" [OF False u run d'] obtain ps
      where o: "order = (placed @ [unit_name u]) @ map unit_name ps"
        and m: "mset ps = mset (remove1 u pending)"
        and c: "\<forall>k < length ps. chosen_at (placed @ [unit_name u]) (remove1 u pending) ps k = Some (ps ! k)"
      by blast
    have "order = placed @ map unit_name (u # ps)" using o by simp
    moreover have "mset (u # ps) = mset pending" using m um by simp
    moreover have "\<forall>k < length (u # ps). chosen_at placed pending (u # ps) k = Some ((u # ps) ! k)"
    proof (intro allI impI)
      fix k assume k: "k < length (u # ps)"
      show "chosen_at placed pending (u # ps) k = Some ((u # ps) ! k)"
      proof (cases k)
        case 0
        then show ?thesis using u by (simp add: chosen_at_def)
      next
        case (Suc j)
        with k have j: "j < length ps" by simp
        have "filter (\<lambda>x. x \<notin> set (take (Suc j) (u # ps))) pending
            = filter (\<lambda>x. x \<notin> set (take j ps)) (remove1 u pending)"
          using "1.prems"(2) by (simp add: remove1_as_filter conj_commute)
        then have "chosen_at placed pending (u # ps) (Suc j)
            = chosen_at (placed @ [unit_name u]) (remove1 u pending) ps j"
          by (simp add: chosen_at_def)
        with c j Suc show ?thesis by simp
      qed
    qed
    ultimately show ?thesis by blast
  qed
qed

text \<open>
  A set \<open>C\<close> of names none of which is placed, each pending unit of which depends on a
  name of \<open>C\<close>: no unit of \<open>C\<close> ever gets ready, and the loop ends in the error, which
  names all of \<open>C\<close>.
\<close>

lemma order_units_stuck:
  assumes "C \<noteq> {}" and "C \<subseteq> unit_name ` set pending" and "C \<inter> set placed = {}"
      and "\<forall>u \<in> set pending. unit_name u \<in> C \<longrightarrow> (\<exists>d \<in> set (depends u). d \<in> C)"
  shows "\<exists>us. order_units placed pending = Inl (CyclicDependencyError us) \<and>
              C \<subseteq> set us \<and> set us \<subseteq> unit_name ` set pending"
  using assms
proof (induction placed pending rule: order_units.induct)
  case (1 placed pending)
  from "1.prems"(1,2) have ne: "pending \<noteq> []" by auto
  show ?case
  proof (cases "find (ready placed) pending")
    case None
    with ne "1.prems"(2) show ?thesis by simp
  next
    case (Some u)
    then have um: "u \<in> set pending" and ur: "ready placed u"
      by (simp_all add: find_Some_mem)
    have notC: "unit_name u \<notin> C"
    proof
      assume "unit_name u \<in> C"
      with "1.prems"(4) um obtain d where "d \<in> set (depends u)" "d \<in> C" by blast
      with ur "1.prems"(3) show False by (auto simp: ready_iff)
    qed
    have sub: "C \<subseteq> unit_name ` set (remove1 u pending)"
    proof
      fix c assume c: "c \<in> C"
      with "1.prems"(2) obtain x where x: "x \<in> set pending" "unit_name x = c" by auto
      with c notC have "x \<noteq> u" by auto
      with x have "x \<in> set (remove1 u pending)" by (simp add: in_set_remove1)
      with x show "c \<in> unit_name ` set (remove1 u pending)" by auto
    qed
    have dis: "C \<inter> set (placed @ [unit_name u]) = {}"
      using "1.prems"(3) notC by auto
    have dep: "\<forall>w \<in> set (remove1 u pending). unit_name w \<in> C \<longrightarrow> (\<exists>d \<in> set (depends w). d \<in> C)"
      using "1.prems"(4) set_remove1_subset [of u pending] by blast
    from "1.IH" [OF ne Some "1.prems"(1) sub dis dep] obtain us
      where "order_units (placed @ [unit_name u]) (remove1 u pending) = Inl (CyclicDependencyError us)"
        and "C \<subseteq> set us" and "set us \<subseteq> unit_name ` set (remove1 u pending)" by blast
    moreover have "unit_name ` set (remove1 u pending) \<subseteq> unit_name ` set pending"
      using set_remove1_subset [of u pending] by blast
    ultimately show ?thesis using ne Some by auto
  qed
qed

lemma on_cycle_successor:
  assumes "on_cycle units n"
  shows "\<exists>d. (n, d) \<in> dep_rel units \<and> on_cycle units d"
proof -
  from assms have "(n, n) \<in> (dep_rel units)\<^sup>+" by (simp add: on_cycle_def)
  then obtain d where d: "(n, d) \<in> dep_rel units" "(d, n) \<in> (dep_rel units)\<^sup>*"
    by (auto dest: tranclD)
  have "(d, d) \<in> (dep_rel units)\<^sup>+" by (rule rtrancl_into_trancl1 [OF d(2) d(1)])
  with d show ?thesis by (auto simp: on_cycle_def)
qed

lemma filter_name_neq:
  assumes "distinct (map unit_name units)" and "u \<in> set units"
  shows "filter (\<lambda>x. unit_name x \<notin> set (placed @ [unit_name u])) units
       = remove1 u (filter (\<lambda>x. unit_name x \<notin> set placed) units)"
proof -
  from assms(1) have d: "distinct units" and inj: "inj_on unit_name (set units)"
    by (simp_all add: distinct_map)
  have "filter (\<lambda>x. unit_name x \<notin> set (placed @ [unit_name u])) units
      = filter (\<lambda>x. x \<noteq> u) (filter (\<lambda>x. unit_name x \<notin> set placed) units)"
    using inj assms(2)
    by (auto simp: inj_on_def intro!: filter_cong)
  also have "\<dots> = remove1 u (filter (\<lambda>x. unit_name x \<notin> set placed) units)"
    using d by (simp add: remove1_as_filter)
  finally show ?thesis .
qed

text \<open>When the loop ends in the error, the error names the unresolved units.\<close>

lemma order_units_error_names:
  assumes "order_units placed pending = Inl e"
      and "distinct (map unit_name units)"
      and "pending = filter (\<lambda>u. unit_name u \<notin> set placed) units"
      and "set reserved_units \<subseteq> set placed"
      and "\<forall>n \<in> set placed. resolvable units n"
  shows "e = CyclicDependencyError (unresolved units)"
  using assms
proof (induction placed pending rule: order_units.induct)
  case (1 placed pending)
  from "1.prems"(1) have ne: "pending \<noteq> []" by auto
  show ?case
  proof (cases "find (ready placed) pending")
    case None
    then have stuck: "\<forall>u \<in> set pending. \<not> ready placed u"
      by (simp add: find_None_iff)
    have all_placed: "resolvable units n \<Longrightarrow> n \<in> set placed" for n
    proof (induction rule: resolvable.induct)
      case (resolvable_reserved n)
      with "1.prems"(4) show ?case by auto
    next
      case (resolvable_unit u)
      then have "ready placed u" by (auto simp: ready_iff)
      with stuck have "u \<notin> set pending" by auto
      with resolvable_unit(1) "1.prems"(3) show ?case by simp
    qed
    have "filter (\<lambda>u. unit_name u \<notin> set placed) units
        = filter (\<lambda>u. \<not> resolvable units (unit_name u)) units"
      using all_placed "1.prems"(5) by (auto intro!: filter_cong)
    with "1.prems"(1,3) ne None show ?thesis by (simp add: unresolved_def)
  next
    case (Some u)
    then have um: "u \<in> set pending" and ur: "ready placed u"
      by (simp_all add: find_Some_mem)
    from um "1.prems"(3) have uu: "u \<in> set units" by simp
    from "1.prems"(1) ne Some
    have run: "order_units (placed @ [unit_name u]) (remove1 u pending) = Inl e" by simp
    have p': "remove1 u pending = filter (\<lambda>x. unit_name x \<notin> set (placed @ [unit_name u])) units"
      using filter_name_neq [OF "1.prems"(2) uu, of placed] "1.prems"(3) by simp
    have r': "set reserved_units \<subseteq> set (placed @ [unit_name u])"
      using "1.prems"(4) by auto
    have "resolvable units (unit_name u)"
      using uu ur "1.prems"(5) by (auto intro!: resolvable_unit simp: ready_iff)
    with "1.prems"(5) have res': "\<forall>n \<in> set (placed @ [unit_name u]). resolvable units n"
      by auto
    from "1.IH" [OF ne Some run "1.prems"(2) p' r' res'] show ?thesis .
  qed
qed
end
